theory Spec2Isabelle
  imports Main "HOL-Library.Sublist"
begin

section \<open>Data model of actions.js\<close>

text \<open>
  User ids are Twitter id strings (\<open>id_str\<close>); an error value handed to a callback is
  kept as its text.
\<close>

type_synonym uid = string
type_synonym err = string

text \<open>
  Modelled from the spec: the status constants \<open>Action.DONE\<close>,
  \<open>Action.CANCELLED_FOLLOWING\<close>, ... are declared in setup.js, which is not part of
  the sources at hand; the spec's status enum lists them. They are non-empty strings in
  JavaScript, hence truthy in \<open>if (newState)\<close>; the only falsy value of \<open>newState\<close> is
  its initial \<open>null\<close>, which is \<open>None\<close> below.
\<close>

datatype status =
    PENDING
  | DONE
  | CANCELLED_FOLLOWING
  | CANCELLED_DUPLICATE
  | CANCELLED_UNBLOCKED
  | CANCELLED_SELF
  | DEFERRED_TARGET_SUSPENDED

text \<open>A row of the Actions table, which is also the shape of an Action object.\<close>

record action =
  a_id :: nat
  a_source_uid :: uid
  a_sink_uid :: uid
  a_type :: string
  a_status :: status
  a_updatedAt :: nat

record unblocked_user =
  ub_source_uid :: uid
  ub_sink_uid :: uid

text \<open>A BtUser as \<open>BtUser.find\<close> with \<open>include: [UnblockedUser]\<close> returns it.\<close>

record bt_user =
  bt_uid :: uid
  bt_screen_name :: string
  bt_access_token :: string
  bt_access_token_secret :: string
  bt_unblockedUsers :: "unblocked_user list"

text \<open>One element of the answer of friendships/lookup, and the answer of blocks/create.\<close>

record friendship =
  f_id_str :: uid
  f_screen_name :: string
  f_connections :: "string list"

record block_result =
  r_id_str :: uid
  r_screen_name :: string

section \<open>The world: log, calls, objects and tables\<close>

datatype level = ERROR | WARN | INFO | DEBUG | CONSOLE

type_synonym log_entry = "level \<times> string"

text \<open>
  The \<open>where\<close> option of both queries is the SQL text
  \<open>status = "pending" and type = "block"\<close>.
\<close>

datatype where_clause = StatusPendingAndTypeBlock

record find_options =
  o_where :: where_clause
  o_group_source_uid :: bool
  o_order_updatedAt_ASC :: bool
  o_limit :: nat

text \<open>Every call that leaves the module: to the store and to the Twitter client.\<close>

datatype call =
    ActionFindAll find_options
  | BtUserFind uid
  | GetActions uid find_options
  | FriendshipsLookup uid "uid list"
  | BlocksCreate uid uid
  | ActionSave nat status

text \<open>
  \<open>w_log\<close> is what the logger (and \<open>console.log\<close>) received, \<open>w_calls\<close> the calls
  issued, both in order. \<open>w_mem\<close> is the \<open>status\<close> field of the Action object in memory
  that was loaded from the row with a given id; \<open>w_actions\<close> and \<open>w_users\<close> are the
  tables of the store. \<open>w_visited\<close> records, for each invocation of
  \<open>blockUnlessFollowingWithFriendships\<close> on a non-empty list, the id of
  \<open>actions[0]\<close>; the code does not read it.
\<close>

record world =
  w_log :: "log_entry list"
  w_calls :: "call list"
  w_visited :: "nat list"
  w_mem :: "nat \<Rightarrow> status"
  w_users :: "bt_user list"
  w_actions :: "action list"

text \<open>
  The outcome of a call is chosen by the environment, which may look at the world at
  the moment of the call: the answer of friendships/lookup, the answer of
  blocks/create, and whether a store operation emits \<open>error\<close> instead of \<open>success\<close>.
\<close>

record env =
  e_lookup :: "world \<Rightarrow> bt_user \<Rightarrow> uid list \<Rightarrow> err + friendship list"
  e_block :: "world \<Rightarrow> bt_user \<Rightarrow> uid \<Rightarrow> err + block_result"
  e_fault :: "world \<Rightarrow> call \<Rightarrow> err option"

definition logger :: "level \<Rightarrow> string \<Rightarrow> world \<Rightarrow> world" where
  "logger lvl msg w = w\<lparr>w_log := w_log w @ [(lvl, msg)]\<rparr>"

definition issue :: "call \<Rightarrow> world \<Rightarrow> world" where
  "issue c w = w\<lparr>w_calls := w_calls w @ [c]\<rparr>"

definition visit :: "action \<Rightarrow> world \<Rightarrow> world" where
  "visit a w = w\<lparr>w_visited := w_visited w @ [a_id a]\<rparr>"

section \<open>The store's evaluation of a query\<close>

text \<open>
  Modelled from the spec: the store (the ORM behind \<open>Action.findAll\<close> and
  \<open>btUser.getActions\<close>, and the model and association declarations of setup.js) is
  not part of the sources at hand. A query filters the rows by its \<open>where\<close> clause,
  keeps one representative row per \<open>source_uid\<close> when grouped (here the first in table
  order), sorts by ascending \<open>updatedAt\<close> when ordered, and returns at most \<open>limit\<close>
  rows. \<open>getActions\<close> restricts the query to the rows whose \<open>source_uid\<close> is the
  account's uid.
\<close>

text \<open>
  Modelled from the spec: the meaning of the \<open>where\<close> text, status PENDING and kind
  block (the column values are those of setup.js).
\<close>

fun holds :: "where_clause \<Rightarrow> action \<Rightarrow> bool" where
  "holds StatusPendingAndTypeBlock a = (a_status a = PENDING \<and> a_type a = ''block'')"

text \<open>
  Modelled from the spec: grouping by \<open>source_uid\<close> returns at most one
  representative row per distinct source id; \<open>seen\<close> holds the ids already
  represented.
\<close>

fun group_source_uid :: "uid list \<Rightarrow> action list \<Rightarrow> action list" where
  "group_source_uid seen [] = []"
| "group_source_uid seen (a # as) =
     (if a_source_uid a \<in> set seen then group_source_uid seen as
      else a # group_source_uid (a_source_uid a # seen) as)"

text \<open>
  Modelled from the spec: \<open>Action.findAll\<close> of the store, applying \<open>where\<close>,
  \<open>group\<close>, \<open>order\<close> and \<open>limit\<close> in this order to the rows of the table.
\<close>

definition Action_findAll :: "find_options \<Rightarrow> action list \<Rightarrow> action list" where
  "Action_findAll opts rows =
     (let r1 = filter (holds (o_where opts)) rows;
          r2 = (if o_group_source_uid opts then group_source_uid [] r1 else r1);
          r3 = (if o_order_updatedAt_ASC opts then sort_key a_updatedAt r2 else r2)
      in take (o_limit opts) r3)"

text \<open>
  Modelled from the spec: \<open>btUser.getActions\<close>, the getter of the association between
  accounts and their actions declared in setup.js: the same query over the rows whose
  \<open>source_uid\<close> is the account's uid. It answers with a list.
\<close>

definition getActions :: "bt_user \<Rightarrow> find_options \<Rightarrow> action list \<Rightarrow> action list option" where
  "getActions btUser opts rows =
     Some (Action_findAll opts (filter (\<lambda>a. a_source_uid a = bt_uid btUser) rows))"

section \<open>The functions of actions.js\<close>

text \<open>
  \<open>_.indexBy(friendships, 'id_str')\<close>: an object keyed by \<open>id_str\<close>, a later element
  replacing an earlier one with the same key. The map holds the object's own
  properties; the \<open>id_str\<close> of an element comes from Twitter and is a string of digits.
\<close>

definition indexBy_id_str :: "friendship list \<Rightarrow> (uid \<rightharpoonup> friendship)" where
  "indexBy_id_str friendships = foldl (\<lambda>m f. m(f_id_str f \<mapsto> f)) Map.empty friendships"

text \<open>
  Reading \<open>indexedFriendships[sink_uid]\<close>. The object is a plain one, so a read that
  finds no own property answers a property inherited from \<open>Object.prototype\<close> when the
  key is one of its names: a function (for \<open>__proto__\<close> the prototype itself), which
  is truthy and has no \<open>connections\<close>. Any other key reads as \<open>undefined\<close> (\<open>None\<close>).
\<close>

datatype property = Own friendship | Inherited

definition Object_prototype_names :: "string list" where
  "Object_prototype_names =
     [''constructor'', ''toString'', ''toLocaleString'', ''valueOf'', ''hasOwnProperty'',
      ''isPrototypeOf'', ''propertyIsEnumerable'', ''__proto__'', ''__defineGetter__'',
      ''__defineSetter__'', ''__lookupGetter__'', ''__lookupSetter__'']"

definition get_property :: "(uid \<rightharpoonup> friendship) \<Rightarrow> uid \<Rightarrow> property option" where
  "get_property obj k =
     (case obj k of
        Some f \<Rightarrow> Some (Own f)
      | None \<Rightarrow> if k \<in> set Object_prototype_names then Some Inherited else None)"

text \<open>
  \<open>friendship.connections\<close> is \<open>undefined\<close> (\<open>None\<close>) on an inherited property, and
  \<open>_.contains\<close> answers false on a missing list.
\<close>

fun connections :: "property \<Rightarrow> string list option" where
  "connections (Own f) = Some (f_connections f)"
| "connections Inherited = None"

fun contains :: "string list option \<Rightarrow> string \<Rightarrow> bool" where
  "contains None target = False"
| "contains (Some collection) target = (target \<in> set collection)"

text \<open>
  \<open>setActionStatus\<close>: assign the field, save, and call \<open>next\<close> from the handler of
  whichever event the save emits. A save that fails leaves the row as it was.
\<close>

definition setActionStatus ::
  "env \<Rightarrow> action \<Rightarrow> status \<Rightarrow> (world \<Rightarrow> world) \<Rightarrow> world \<Rightarrow> world" where
  "setActionStatus env action newState next w =
     (let w1 = w\<lparr>w_mem := (w_mem w)(a_id action := newState)\<rparr>;
          w2 = issue (ActionSave (a_id action) newState) w1
      in case e_fault env w1 (ActionSave (a_id action) newState) of
           Some err \<Rightarrow> next (logger ERROR err w2)
         | None \<Rightarrow>
             next (w2\<lparr>w_actions :=
                     map (\<lambda>r. if a_id r = a_id action then r\<lparr>a_status := newState\<rparr> else r)
                       (w_actions w2)\<rparr>))"

text \<open>
  \<open>blockUnlessFollowingWithFriendships\<close>. The argument \<open>actions\<close> may be \<open>null\<close>
  (\<open>None\<close>). \<open>next\<close> is the function bound to \<open>actions.slice(1)\<close>.
\<close>

fun blockUnlessFollowingWithFriendships ::
  "env \<Rightarrow> bt_user \<Rightarrow> (uid \<rightharpoonup> friendship) \<Rightarrow> action list option \<Rightarrow> world \<Rightarrow> world" where
  "blockUnlessFollowingWithFriendships env sourceBtUser indexedFriendships None w0 = w0"
| "blockUnlessFollowingWithFriendships env sourceBtUser indexedFriendships (Some []) w0 = w0"
| "blockUnlessFollowingWithFriendships env sourceBtUser indexedFriendships
       (Some (action # rest)) w0 =
     (let w = visit action w0;
          next = blockUnlessFollowingWithFriendships env sourceBtUser indexedFriendships
                   (Some rest);
          sink_uid = a_sink_uid action;
          friendship = get_property indexedFriendships sink_uid;
          newState =
            (case friendship of
               None \<Rightarrow> Some DEFERRED_TARGET_SUSPENDED
             | Some fr \<Rightarrow>
                 if contains (connections fr) ''blocking'' then Some CANCELLED_DUPLICATE
                 else if contains (connections fr) ''following'' then Some CANCELLED_FOLLOWING
                 else if find (\<lambda>u. ub_sink_uid u = sink_uid)
                           (bt_unblockedUsers sourceBtUser) \<noteq> None
                   then Some CANCELLED_UNBLOCKED
                 else if bt_uid sourceBtUser = sink_uid then Some CANCELLED_SELF
                 else None)
      in case newState of
           Some s \<Rightarrow> setActionStatus env action s next w
         | None \<Rightarrow>
             (let w1 = logger DEBUG ''Creating block'' w;
                  w2 = issue (BlocksCreate (bt_uid sourceBtUser) sink_uid) w1
              in case e_block env w1 sourceBtUser sink_uid of
                   Inl err \<Rightarrow>
                     logger ERROR ''Error /blocks/create''
                       (logger ERROR ''Error blocking: %j'' w2)
                 | Inr results \<Rightarrow>
                     setActionStatus env action DONE next (logger INFO ''Blocked '' w2)))"

text \<open>\<open>blockUnlessFollowing\<close>: the guard on the number of ids, then one bulk lookup.\<close>

definition blockUnlessFollowing ::
  "env \<Rightarrow> bt_user \<Rightarrow> uid list \<Rightarrow> action list \<Rightarrow> world \<Rightarrow> world" where
  "blockUnlessFollowing env sourceBtUser sinkUids actions w =
     (if length sinkUids > 100
      then logger ERROR ''No more than 100 sinkUids allowed. Given'' w
      else
        (let w1 = logger DEBUG ''Checking follow status'' w;
             w2 = issue (FriendshipsLookup (bt_uid sourceBtUser) sinkUids) w1
         in case e_lookup env w1 sourceBtUser sinkUids of
              Inl err \<Rightarrow> logger ERROR ''Error /friendships/lookup'' w2
            | Inr friendships \<Rightarrow>
                blockUnlessFollowingWithFriendships env sourceBtUser
                  (indexBy_id_str friendships) (Some actions) w2))"

definition processActionsForUser :: "env \<Rightarrow> bt_user \<Rightarrow> action list \<Rightarrow> world \<Rightarrow> world" where
  "processActionsForUser env btUser actions w =
     (if length actions > 0
      then (let sinkUids = map a_sink_uid actions
            in blockUnlessFollowing env btUser sinkUids actions w)
      else w)"

text \<open>
  \<open>processActionsForUserId\<close>: find the account, then its oldest pending block actions.
  The objects built from the rows that the store returns start with the status of
  their row.
\<close>

definition processActionsForUserId :: "env \<Rightarrow> uid \<Rightarrow> world \<Rightarrow> world" where
  "processActionsForUserId env uid w =
     (let w1 = issue (BtUserFind uid) w
      in case e_fault env w (BtUserFind uid) of
           Some err \<Rightarrow> logger ERROR err w1
         | None \<Rightarrow>
             (case find (\<lambda>u. bt_uid u = uid) (w_users w1) of
                None \<Rightarrow> logger ERROR ''User not found'' w1
              | Some btUser \<Rightarrow>
                  (let opts = \<lparr>o_where = StatusPendingAndTypeBlock,
                               o_group_source_uid = False,
                               o_order_updatedAt_ASC = True,
                               o_limit = 100\<rparr>;
                       w2 = issue (GetActions (bt_uid btUser) opts) w1
                   in case e_fault env w1 (GetActions (bt_uid btUser) opts) of
                        Some err \<Rightarrow> logger ERROR err w2
                      | None \<Rightarrow>
                          (case getActions btUser opts (w_actions w2) of
                             Some actions \<Rightarrow>
                               processActionsForUser env btUser actions
                                 (w2\<lparr>w_mem := foldl (\<lambda>m a. m(a_id a := a_status a))
                                                (w_mem w2) actions\<rparr>)
                           | None \<Rightarrow> logger WARN ''No actions found for user'' w2))))"

text \<open>
  \<open>processBlocks\<close>: one representative pending block action per source uid, then the
  accounts one after the other (the order in which their callbacks really interleave
  is not modelled).
\<close>

definition processBlocks :: "env \<Rightarrow> world \<Rightarrow> world" where
  "processBlocks env w =
     (let opts = \<lparr>o_where = StatusPendingAndTypeBlock,
                  o_group_source_uid = True,
                  o_order_updatedAt_ASC = False,
                  o_limit = 300\<rparr>;
          w1 = issue (ActionFindAll opts) w
      in case e_fault env w (ActionFindAll opts) of
           Some err \<Rightarrow> logger CONSOLE err w1
         | None \<Rightarrow>
             foldl (\<lambda>w' action. processActionsForUserId env (a_source_uid action) w')
               w1 (Action_findAll opts (w_actions w1)))"

section \<open>The decision rules in the words of the specification\<close>

text \<open>
  The rules of the classifier as the specification lists them: the relationship tags of
  a sink id (none when the sink has no entry), the suppression set of the account, and
  the five rules in their order of precedence. The first rule whose condition holds
  gives the outcome; when none holds the block is attempted (\<open>None\<close>).
\<close>

definition tags :: "(uid \<rightharpoonup> friendship) \<Rightarrow> uid \<Rightarrow> string set" where
  "tags rel sink = (case rel sink of None \<Rightarrow> {} | Some fr \<Rightarrow> set (f_connections fr))"

definition suppression_set :: "bt_user \<Rightarrow> uid set" where
  "suppression_set src = ub_sink_uid ` set (bt_unblockedUsers src)"

definition spec_rules :: "bt_user \<Rightarrow> (uid \<rightharpoonup> friendship) \<Rightarrow> action \<Rightarrow> (bool \<times> status) list" where
  "spec_rules src rel a =
     [(rel (a_sink_uid a) = None, DEFERRED_TARGET_SUSPENDED),
      (''blocking'' \<in> tags rel (a_sink_uid a), CANCELLED_DUPLICATE),
      (''following'' \<in> tags rel (a_sink_uid a), CANCELLED_FOLLOWING),
      (a_sink_uid a \<in> suppression_set src, CANCELLED_UNBLOCKED),
      (bt_uid src = a_sink_uid a, CANCELLED_SELF)]"

definition spec_outcome :: "bt_user \<Rightarrow> (uid \<rightharpoonup> friendship) \<Rightarrow> action \<Rightarrow> status option" where
  "spec_outcome src rel a = map_option snd (find fst (spec_rules src rel a))"

text \<open>
  \<open>decided\<close> names the value of \<open>newState\<close> that the code computes for an action
  (\<open>None\<close> for \<open>null\<close>), so that facts about the executor can refer to it.
\<close>

definition decided :: "bt_user \<Rightarrow> (uid \<rightharpoonup> friendship) \<Rightarrow> action \<Rightarrow> status option" where
  "decided src rel a =
     (case get_property rel (a_sink_uid a) of
        None \<Rightarrow> Some DEFERRED_TARGET_SUSPENDED
      | Some fr \<Rightarrow>
          if contains (connections fr) ''blocking'' then Some CANCELLED_DUPLICATE
          else if contains (connections fr) ''following'' then Some CANCELLED_FOLLOWING
          else if find (\<lambda>u. ub_sink_uid u = a_sink_uid a) (bt_unblockedUsers src) \<noteq> None
            then Some CANCELLED_UNBLOCKED
          else if bt_uid src = a_sink_uid a then Some CANCELLED_SELF
          else None)"

abbreviation after_save :: "env \<Rightarrow> action \<Rightarrow> status \<Rightarrow> world \<Rightarrow> world" where
  "after_save env a s w \<equiv> setActionStatus env a s (\<lambda>w'. w') w"

text \<open>
  \<open>new_calls w w'\<close> are the calls issued between two worlds. \<open>batch_call\<close> describes
  the calls that running a batch may issue: a block-write for the sink of an action
  that no rule cancels, and a save of the state decided for an action.
\<close>

definition new_calls :: "world \<Rightarrow> world \<Rightarrow> call list" where
  "new_calls w w' = drop (length (w_calls w)) (w_calls w')"

definition batch_call :: "bt_user \<Rightarrow> (uid \<rightharpoonup> friendship) \<Rightarrow> action list \<Rightarrow> call \<Rightarrow> bool" where
  "batch_call src rel xs c =
     (case c of
        BlocksCreate u s \<Rightarrow>
          u = bt_uid src \<and> (\<exists>a\<in>set xs. a_sink_uid a = s \<and> decided src rel a = None)
      | ActionSave i st \<Rightarrow>
          (\<exists>a\<in>set xs. a_id a = i \<and>
             (decided src rel a = Some st \<or> decided src rel a = None \<and> st = DONE))
      | _ \<Rightarrow> False)"

text \<open>\<open>is_lookup\<close> recognises a bulk relationship lookup among the calls.\<close>

fun is_lookup :: "call \<Rightarrow> bool" where
  "is_lookup (FriendshipsLookup u ids) = True"
| "is_lookup c = False"

section \<open>Example inputs\<close>

text \<open>
  An account with uid 1 that once unblocked 14; a lookup answer in which 11 and 16 are
  clear, 12 is followed, 13 is both followed and blocked, and 15 is absent; and
  environments in which everything succeeds, or one kind of call fails.
\<close>

definition ex_src :: bt_user where
  "ex_src = \<lparr>bt_uid = ''1'', bt_screen_name = ''alice'', bt_access_token = ''token'',
     bt_access_token_secret = ''secret'',
     bt_unblockedUsers = [\<lparr>ub_source_uid = ''1'', ub_sink_uid = ''14''\<rparr>]\<rparr>"

definition ex_action :: "nat \<Rightarrow> uid \<Rightarrow> action" where
  "ex_action i sink = \<lparr>a_id = i, a_source_uid = ''1'', a_sink_uid = sink, a_type = ''block'',
     a_status = PENDING, a_updatedAt = i\<rparr>"

definition ex_friendships :: "friendship list" where
  "ex_friendships =
     [\<lparr>f_id_str = ''11'', f_screen_name = ''bob'', f_connections = [''none'']\<rparr>,
      \<lparr>f_id_str = ''12'', f_screen_name = ''carol'', f_connections = [''following'']\<rparr>,
      \<lparr>f_id_str = ''13'', f_screen_name = ''dave'',
        f_connections = [''following'', ''blocking'']\<rparr>,
      \<lparr>f_id_str = ''14'', f_screen_name = ''erin'', f_connections = []\<rparr>,
      \<lparr>f_id_str = ''1'', f_screen_name = ''alice'', f_connections = [''none'']\<rparr>,
      \<lparr>f_id_str = ''16'', f_screen_name = ''frank'', f_connections = [''followed_by'']\<rparr>]"

definition ex_world :: world where
  "ex_world = \<lparr>w_log = [], w_calls = [], w_visited = [], w_mem = (\<lambda>i. PENDING),
     w_users = [ex_src],
     w_actions = [ex_action 1 ''11'', ex_action 2 ''16'']\<rparr>"

definition env_ok :: env where
  "env_ok = \<lparr>e_lookup = (\<lambda>w u ids. Inr ex_friendships),
     e_block = (\<lambda>w u sink. Inr \<lparr>r_id_str = sink, r_screen_name = ''name''\<rparr>),
     e_fault = (\<lambda>w c. None)\<rparr>"

definition env_block_fails :: env where
  "env_block_fails = env_ok\<lparr>e_block := (\<lambda>w u sink. Inl ''503'')\<rparr>"

definition env_lookup_fails :: env where
  "env_lookup_fails = env_ok\<lparr>e_lookup := (\<lambda>w u ids. Inl ''429'')\<rparr>"

definition env_save_fails :: env where
  "env_save_fails = env_ok\<lparr>e_fault := (\<lambda>w c. case c of ActionSave i s \<Rightarrow> Some ''deadlock'' | _ \<Rightarrow> None)\<rparr>"

definition ex_store :: world where
  "ex_store = ex_world\<lparr>w_actions :=
     [(ex_action 1 ''11'')\<lparr>a_updatedAt := 9\<rparr>,
      ex_action 2 ''16'',
      (ex_action 3 ''12'')\<lparr>a_status := DONE\<rparr>,
      (ex_action 4 ''11'')\<lparr>a_source_uid := ''2''\<rparr>]\<rparr>"

section \<open>Basic facts\<close>

lemmas ex_defs = ex_src_def ex_action_def ex_friendships_def ex_world_def env_ok_def
  env_block_fails_def env_lookup_fails_def env_save_fails_def

lemma logger_fields [simp]:
  "w_log (logger l m w) = w_log w @ [(l, m)]"
  "w_calls (logger l m w) = w_calls w"
  "w_visited (logger l m w) = w_visited w"
  "w_mem (logger l m w) = w_mem w"
  "w_users (logger l m w) = w_users w"
  "w_actions (logger l m w) = w_actions w"
  by (simp_all add: logger_def)

lemma issue_fields [simp]:
  "w_log (issue c w) = w_log w"
  "w_calls (issue c w) = w_calls w @ [c]"
  "w_visited (issue c w) = w_visited w"
  "w_mem (issue c w) = w_mem w"
  "w_users (issue c w) = w_users w"
  "w_actions (issue c w) = w_actions w"
  by (simp_all add: issue_def)

lemma visit_fields [simp]:
  "w_log (visit a w) = w_log w"
  "w_calls (visit a w) = w_calls w"
  "w_visited (visit a w) = w_visited w @ [a_id a]"
  "w_mem (visit a w) = w_mem w"
  "w_users (visit a w) = w_users w"
  "w_actions (visit a w) = w_actions w"
  by (simp_all add: visit_def)

lemma setActionStatus_next:
  "setActionStatus env a s next w = next (after_save env a s w)"
  by (simp add: setActionStatus_def Let_def split: option.split)

lemma after_save_fields [simp]:
  "w_calls (after_save env a s w) = w_calls w @ [ActionSave (a_id a) s]"
  "w_visited (after_save env a s w) = w_visited w"
  "w_mem (after_save env a s w) = (w_mem w)(a_id a := s)"
  "w_users (after_save env a s w) = w_users w"
  by (simp_all add: setActionStatus_def Let_def split: option.split)

lemma after_save_log:
  "w_log (after_save env a s w) =
     w_log w @ (case e_fault env (w\<lparr>w_mem := (w_mem w)(a_id a := s)\<rparr>) (ActionSave (a_id a) s) of
                  Some err \<Rightarrow> [(ERROR, err)] | None \<Rightarrow> [])"
  by (simp add: setActionStatus_def Let_def split: option.split)

lemma after_save_actions:
  "w_actions (after_save env a s w) =
     (case e_fault env (w\<lparr>w_mem := (w_mem w)(a_id a := s)\<rparr>) (ActionSave (a_id a) s) of
        Some err \<Rightarrow> w_actions w
      | None \<Rightarrow> map (\<lambda>r. if a_id r = a_id a then r\<lparr>a_status := s\<rparr> else r) (w_actions w))"
  by (simp add: setActionStatus_def Let_def split: option.split)

lemma decided_spec_outcome:
  "rel (a_sink_uid a) \<noteq> None \<or> a_sink_uid a \<notin> set Object_prototype_names \<Longrightarrow>
     decided src rel a = spec_outcome src rel a"
  by (auto simp: decided_def get_property_def spec_outcome_def spec_rules_def tags_def
      suppression_set_def find_None_iff image_iff split: option.splits)

lemma spec_outcome_None_decided:
  "spec_outcome src rel a = None \<Longrightarrow> decided src rel a = None"
proof -
  assume n: "spec_outcome src rel a = None"
  then have "rel (a_sink_uid a) \<noteq> None"
    by (auto simp: spec_outcome_def spec_rules_def split: if_splits)
  from decided_spec_outcome [of rel a src] this n show ?thesis by simp
qed

lemma exec_Cons:
  "blockUnlessFollowingWithFriendships env src rel (Some (a # rest)) w0 =
     (case decided src rel a of
        Some s \<Rightarrow>
          blockUnlessFollowingWithFriendships env src rel (Some rest)
            (after_save env a s (visit a w0))
      | None \<Rightarrow>
          (case e_block env (logger DEBUG ''Creating block'' (visit a w0)) src (a_sink_uid a) of
             Inl err \<Rightarrow>
               logger ERROR ''Error /blocks/create''
                 (logger ERROR ''Error blocking: %j''
                   (issue (BlocksCreate (bt_uid src) (a_sink_uid a))
                     (logger DEBUG ''Creating block'' (visit a w0))))
           | Inr r \<Rightarrow>
               blockUnlessFollowingWithFriendships env src rel (Some rest)
                 (after_save env a DONE
                   (logger INFO ''Blocked ''
                     (issue (BlocksCreate (bt_uid src) (a_sink_uid a))
                       (logger DEBUG ''Creating block'' (visit a w0)))))))"
  unfolding blockUnlessFollowingWithFriendships.simps Let_def decided_def [symmetric]
  by (simp add: setActionStatus_next
        [of _ _ _ "blockUnlessFollowingWithFriendships env src rel (Some rest)"]
      split: option.split sum.split)

declare blockUnlessFollowingWithFriendships.simps(3) [simp del]

lemma exec_visited:
  "\<exists>k\<le>length xs. w_visited (blockUnlessFollowingWithFriendships env src rel (Some xs) w) =
      w_visited w @ map a_id (take k xs)"
proof (induction xs arbitrary: w)
  case Nil
  show ?case by simp
next
  case (Cons a rest)
  have step: "\<exists>k\<le>length (a # rest).
      w_visited (blockUnlessFollowingWithFriendships env src rel (Some rest) w') =
      w_visited w @ map a_id (take k (a # rest))"
    if "w_visited w' = w_visited w @ [a_id a]" for w'
  proof -
    from Cons.IH [of w'] obtain k where "k \<le> length rest"
      and "w_visited (blockUnlessFollowingWithFriendships env src rel (Some rest) w') =
        w_visited w' @ map a_id (take k rest)" by blast
    with that show ?thesis by (intro exI [of _ "Suc k"]) simp
  qed
  have stall: "\<exists>k\<le>length (a # rest). w_visited w @ [a_id a] = w_visited w @ map a_id (take k (a # rest))"
    by (intro exI [of _ "Suc 0"]) simp
  show ?case
  proof (cases "decided src rel a")
    case (Some s)
    with step [of "after_save env a s (visit a w)"] show ?thesis
      by (simp add: exec_Cons)
  next
    case None
    show ?thesis
    proof (cases "e_block env (logger DEBUG ''Creating block'' (visit a w)) src (a_sink_uid a)")
      case (Inl err)
      with None stall show ?thesis by (simp add: exec_Cons)
    next
      case (Inr r)
      with None step [of "after_save env a DONE
          (logger INFO ''Blocked '' (issue (BlocksCreate (bt_uid src) (a_sink_uid a))
            (logger DEBUG ''Creating block'' (visit a w))))"]
      show ?thesis by (simp add: exec_Cons)
    qed
  qed
qed


lemma exec_rel_induct [consumes 0, case_names Nil Cancel Stall Write]:
  assumes c_nil: "\<And>w. P [] w w"
    and c_cancel: "\<And>a rest w w' s. decided src rel a = Some s \<Longrightarrow>
        P rest (after_save env a s (visit a w)) w' \<Longrightarrow> P (a # rest) w w'"
    and c_stall: "\<And>a rest w err. decided src rel a = None \<Longrightarrow>
        e_block env (logger DEBUG ''Creating block'' (visit a w)) src (a_sink_uid a) = Inl err \<Longrightarrow>
        P (a # rest) w
          (logger ERROR ''Error /blocks/create''
            (logger ERROR ''Error blocking: %j''
              (issue (BlocksCreate (bt_uid src) (a_sink_uid a))
                (logger DEBUG ''Creating block'' (visit a w)))))"
    and c_write: "\<And>a rest w w' r. decided src rel a = None \<Longrightarrow>
        e_block env (logger DEBUG ''Creating block'' (visit a w)) src (a_sink_uid a) = Inr r \<Longrightarrow>
        P rest (after_save env a DONE
                 (logger INFO ''Blocked ''
                   (issue (BlocksCreate (bt_uid src) (a_sink_uid a))
                     (logger DEBUG ''Creating block'' (visit a w))))) w' \<Longrightarrow>
        P (a # rest) w w'"
  shows "P xs w (blockUnlessFollowingWithFriendships env src rel (Some xs) w)"
proof (induction xs arbitrary: w)
  case Nil
  show ?case by (simp add: c_nil)
next
  case (Cons a rest)
  show ?case
  proof (cases "decided src rel a")
    case (Some s)
    with c_cancel [OF Some Cons.IH] show ?thesis by (simp add: exec_Cons)
  next
    case None
    show ?thesis
    proof (cases "e_block env (logger DEBUG ''Creating block'' (visit a w)) src (a_sink_uid a)")
      case (Inl err)
      with None c_stall [OF None Inl] show ?thesis by (simp add: exec_Cons)
    next
      case (Inr r)
      with None c_write [OF None Inr Cons.IH] show ?thesis by (simp add: exec_Cons)
    qed
  qed
qed

lemma batch_call_Cons: "batch_call src rel rest c \<Longrightarrow> batch_call src rel (a # rest) c"
  by (auto simp: batch_call_def split: call.splits)

lemma exec_calls:
  "\<exists>cs. w_calls (blockUnlessFollowingWithFriendships env src rel (Some xs) w) = w_calls w @ cs \<and>
        list_all (batch_call src rel xs) cs"
proof (induction xs w rule: exec_rel_induct [where env = env and src = src and rel = rel])
  case (Nil w)
  show ?case by simp
next
  case (Cancel a rest w w' s)
  then obtain cs where "w_calls w' = w_calls w @ ActionSave (a_id a) s # cs"
    and "list_all (batch_call src rel rest) cs" by auto
  moreover have "batch_call src rel (a # rest) (ActionSave (a_id a) s)"
    using Cancel(1) by (simp add: batch_call_def)
  ultimately show ?case
    by (auto simp: list_all_iff intro: batch_call_Cons)
next
  case (Stall a rest w err)
  then show ?case by (simp add: batch_call_def)
next
  case (Write a rest w w' r)
  then obtain cs where "w_calls w' =
      w_calls w @ BlocksCreate (bt_uid src) (a_sink_uid a) # ActionSave (a_id a) DONE # cs"
    and "list_all (batch_call src rel rest) cs" by auto
  moreover have "batch_call src rel (a # rest) (ActionSave (a_id a) DONE)"
    "batch_call src rel (a # rest) (BlocksCreate (bt_uid src) (a_sink_uid a))"
    using Write(1) by (simp_all add: batch_call_def)
  ultimately show ?case
    by (auto simp: list_all_iff intro: batch_call_Cons)
qed

lemma exec_new_calls:
  "list_all (batch_call src rel xs)
     (new_calls w (blockUnlessFollowingWithFriendships env src rel (Some xs) w))"
  using exec_calls [of env src rel xs w] by (auto simp: new_calls_def)





lemma exec_extends_calls:
  "\<exists>cs. new_calls w (blockUnlessFollowingWithFriendships env src rel (Some xs) w') =
          new_calls w w' @ cs"
  if "length (w_calls w) \<le> length (w_calls w')"
  using exec_calls [of env src rel xs w'] that by (auto simp: new_calls_def)




lemma exec_write_head:
  assumes "decided src rel a = None"
  shows "\<exists>cs. new_calls w (blockUnlessFollowingWithFriendships env src rel (Some (a # rest)) w) =
           BlocksCreate (bt_uid src) (a_sink_uid a) # cs"
proof (cases "e_block env (logger DEBUG ''Creating block'' (visit a w)) src (a_sink_uid a)")
  case (Inl err)
  with assms show ?thesis by (simp add: exec_Cons new_calls_def)
next
  case (Inr r)
  let ?w' = "after_save env a DONE
     (logger INFO ''Blocked '' (issue (BlocksCreate (bt_uid src) (a_sink_uid a))
        (logger DEBUG ''Creating block'' (visit a w))))"
  have "new_calls w ?w' = [BlocksCreate (bt_uid src) (a_sink_uid a), ActionSave (a_id a) DONE]"
    by (simp add: new_calls_def)
  with exec_extends_calls [of w ?w' env src rel rest] assms Inr
  show ?thesis by (auto simp: exec_Cons)
qed

lemma batch_call_not_lookup: "batch_call src rel xs c \<Longrightarrow> \<not> is_lookup c"
  by (cases c) (simp_all add: batch_call_def)

lemma exec_no_lookup:
  "filter is_lookup
     (new_calls w (blockUnlessFollowingWithFriendships env src rel (Some xs) w)) = []"
  using exec_new_calls [of src rel xs w env] batch_call_not_lookup [of src rel xs]
  by (auto simp: filter_empty_conv list_all_iff)

lemma new_calls_append:
  "w_calls w' = w_calls w @ cs \<Longrightarrow> w_calls w'' = w_calls w' @ ds \<Longrightarrow>
     new_calls w w'' = cs @ new_calls w' w''"
  by (simp add: new_calls_def)


section \<open>Facts about the store's queries\<close>

lemma group_source_uid_subset: "set (group_source_uid seen rows) \<subseteq> set rows"
  by (induction rows arbitrary: seen) auto

lemma group_source_uid_fresh:
  "a \<in> set (group_source_uid seen rows) \<Longrightarrow> a_source_uid a \<notin> set seen"
proof (induction rows arbitrary: seen)
  case Nil
  then show ?case by simp
next
  case (Cons r rows)
  show ?case
  proof (cases "a_source_uid r \<in> set seen")
    case True
    with Cons.prems Cons.IH [of seen] show ?thesis by simp
  next
    case False
    with Cons.prems Cons.IH [of "a_source_uid r # seen"] show ?thesis by auto
  qed
qed

lemma group_source_uid_distinct: "distinct (map a_source_uid (group_source_uid seen rows))"
  by (induction rows arbitrary: seen) (auto dest: group_source_uid_fresh)

lemma findAll_length: "length (Action_findAll opts rows) \<le> o_limit opts"
  by (simp add: Action_findAll_def Let_def)

lemma findAll_subset:
  "a \<in> set (Action_findAll opts rows) \<Longrightarrow> a \<in> set rows \<and> holds (o_where opts) a"
  using group_source_uid_subset [of "[]" "filter (holds (o_where opts)) rows"]
  by (auto simp: Action_findAll_def Let_def dest!: in_set_takeD split: if_splits)

lemma findAll_sorted:
  "o_order_updatedAt_ASC opts \<Longrightarrow> sorted (map a_updatedAt (Action_findAll opts rows))"
  by (simp add: Action_findAll_def Let_def take_map [symmetric])

lemma findAll_distinct:
  "o_group_source_uid opts \<Longrightarrow> \<not> o_order_updatedAt_ASC opts \<Longrightarrow>
     distinct (map a_source_uid (Action_findAll opts rows))"
  by (simp add: Action_findAll_def Let_def take_map [symmetric] group_source_uid_distinct)

lemma take_sorted_oldest:
  assumes "sorted (map f xs)" and "a \<in> set (take n xs)" and "b \<in> set xs"
    and "b \<notin> set (take n xs)"
  shows "f a \<le> f b \<and> length (take n xs) = n"
proof -
  from assms(3,4) have b: "b \<in> set (drop n xs)"
    by (metis Un_iff append_take_drop_id set_append)
  then have "n < length xs" by (cases "n < length xs") auto
  moreover from assms(1) have "sorted (map f (take n xs) @ map f (drop n xs))"
    by (simp add: map_append [symmetric] del: map_append)
  with assms(2) b have "f a \<le> f b" by (auto simp: sorted_append)
  ultimately show ?thesis by simp
qed

lemma findAll_oldest:
  assumes "o_order_updatedAt_ASC opts" and "\<not> o_group_source_uid opts"
    and "a \<in> set (Action_findAll opts rows)"
    and "b \<in> set rows" and "holds (o_where opts) b" and "b \<notin> set (Action_findAll opts rows)"
  shows "a_updatedAt a \<le> a_updatedAt b \<and> length (Action_findAll opts rows) = o_limit opts"
  using assms
    take_sorted_oldest [of a_updatedAt "sort_key a_updatedAt (filter (holds (o_where opts)) rows)"
      a "o_limit opts" b]
  by (simp add: Action_findAll_def Let_def)

lemmas run_defs = exec_Cons decided_def get_property_def Object_prototype_names_def
  indexBy_id_str_def setActionStatus_def Let_def

lemmas spec_defs = spec_outcome_def spec_rules_def tags_def suppression_set_def

text \<open>
  At a sink that has no entry but is the name of an inherited property, the read
  answers the inherited property and the action is not deferred: unless the sink is
  suppressed or is the account itself, the block is attempted.
\<close>

lemma inherited_name_not_deferred:
  assumes "rel (a_sink_uid a) = None" and "a_sink_uid a \<in> set Object_prototype_names"
    and "a_sink_uid a \<notin> suppression_set src" and "bt_uid src \<noteq> a_sink_uid a"
  shows "decided src rel a = None"
    and "\<exists>cs. new_calls w (blockUnlessFollowingWithFriendships env src rel (Some (a # rest)) w) =
           BlocksCreate (bt_uid src) (a_sink_uid a) # cs"
proof -
  from assms show d: "decided src rel a = None"
    by (auto simp: decided_def get_property_def suppression_set_def find_None_iff image_iff)
  from exec_write_head [OF d]
  show "\<exists>cs. new_calls w (blockUnlessFollowingWithFriendships env src rel (Some (a # rest)) w) =
           BlocksCreate (bt_uid src) (a_sink_uid a) # cs" .
qed

section \<open>The claims\<close>

text \<open>
  C1. An action that reaches the write step and whose blocks/create call fails keeps
  its status (the object in memory and the row are untouched, hence PENDING) and the
  error is logged. The executor then returns: the continuation is not called, the
  only call issued is the failed block-write, and the only action visited is this
  one, so the rest of the batch is not processed in this pass.
\<close>

theorem write_failure_stalls:
  assumes "spec_outcome src rel action = None"
    and "e_block env (logger DEBUG ''Creating block'' (visit action w)) src (a_sink_uid action) =
           Inl err"
  shows "w_mem (blockUnlessFollowingWithFriendships env src rel (Some (action # rest)) w) =
           w_mem w \<and>
         w_actions (blockUnlessFollowingWithFriendships env src rel (Some (action # rest)) w) =
           w_actions w \<and>
         w_log (blockUnlessFollowingWithFriendships env src rel (Some (action # rest)) w) =
           w_log w @ [(DEBUG, ''Creating block''), (ERROR, ''Error blocking: %j''),
                      (ERROR, ''Error /blocks/create'')] \<and>
         new_calls w (blockUnlessFollowingWithFriendships env src rel (Some (action # rest)) w) =
           [BlocksCreate (bt_uid src) (a_sink_uid action)] \<and>
         w_visited (blockUnlessFollowingWithFriendships env src rel (Some (action # rest)) w) =
           w_visited w @ [a_id action]"
  using assms spec_outcome_None_decided [OF assms(1)]
  by (simp add: exec_Cons new_calls_def)

text \<open>
  A batch of two clear actions in which blocks/create fails: only the first is visited
  and no call is issued for the second; when the write succeeds both are visited.
\<close>

theorem write_failure_stalls_witness:
  "spec_outcome ex_src (indexBy_id_str ex_friendships) (ex_action 1 ''11'') = None \<and>
   e_block env_block_fails (logger DEBUG ''Creating block'' (visit (ex_action 1 ''11'') ex_world))
     ex_src (a_sink_uid (ex_action 1 ''11'')) = Inl ''503'' \<and>
   w_visited (blockUnlessFollowingWithFriendships env_block_fails ex_src
      (indexBy_id_str ex_friendships) (Some [ex_action 1 ''11'', ex_action 2 ''16''])
      ex_world) = [1] \<and>
   w_calls (blockUnlessFollowingWithFriendships env_block_fails ex_src
      (indexBy_id_str ex_friendships) (Some [ex_action 1 ''11'', ex_action 2 ''16''])
      ex_world) = [BlocksCreate ''1'' ''11''] \<and>
   w_log (blockUnlessFollowingWithFriendships env_block_fails ex_src
      (indexBy_id_str ex_friendships) (Some [ex_action 1 ''11'', ex_action 2 ''16''])
      ex_world) =
     [(DEBUG, ''Creating block''), (ERROR, ''Error blocking: %j''),
      (ERROR, ''Error /blocks/create'')] \<and>
   w_mem (blockUnlessFollowingWithFriendships env_block_fails ex_src
      (indexBy_id_str ex_friendships) (Some [ex_action 1 ''11'', ex_action 2 ''16''])
      ex_world) 2 = PENDING \<and>
   w_visited (blockUnlessFollowingWithFriendships env_ok ex_src
      (indexBy_id_str ex_friendships) (Some [ex_action 1 ''11'', ex_action 2 ''16''])
      ex_world) = [1, 2]"
proof -
  have h1: "spec_outcome ex_src (indexBy_id_str ex_friendships) (ex_action 1 ''11'') = None"
    by (simp add: spec_defs run_defs ex_defs)
  have h2: "e_block env_block_fails
      (logger DEBUG ''Creating block'' (visit (ex_action 1 ''11'') ex_world))
      ex_src (a_sink_uid (ex_action 1 ''11'')) = Inl ''503''"
    by (simp add: ex_defs)
  from h1 h2 write_failure_stalls [OF h1 h2, where rest = "[ex_action 2 ''16'']"]
  show ?thesis
    by (simp add: run_defs ex_defs)
qed

text \<open>
  C2. The state that the code computes for an action is the first matching rule of
  the specification whenever the sink is not the name of an inherited property
  (\<open>decided_spec_outcome\<close>), but the executor does not reach every action of a
  batch. When the block-write of an earlier action fails, an action behind it whose
  relationship is tagged both blocking and following, and which the rules resolve to
  CANCELLED_DUPLICATE, is never classified: its object and the rows are unchanged,
  no save is issued for it, and the action with the failed write is the only one
  visited.
\<close>

theorem precedence_skipped_after_failed_write:
  assumes "spec_outcome src rel head = None"
    and "e_block env (logger DEBUG ''Creating block'' (visit head w)) src (a_sink_uid head) =
           Inl err"
    and "b \<in> set rest"
    and "''blocking'' \<in> tags rel (a_sink_uid b)"
    and "''following'' \<in> tags rel (a_sink_uid b)"
  shows "spec_outcome src rel b = Some CANCELLED_DUPLICATE \<and>
         decided src rel b = Some CANCELLED_DUPLICATE \<and>
         w_mem (blockUnlessFollowingWithFriendships env src rel (Some (head # rest)) w) (a_id b) =
           w_mem w (a_id b) \<and>
         w_actions (blockUnlessFollowingWithFriendships env src rel (Some (head # rest)) w) =
           w_actions w \<and>
         (\<forall>s. ActionSave (a_id b) s \<notin>
            set (new_calls w
                  (blockUnlessFollowingWithFriendships env src rel (Some (head # rest)) w))) \<and>
         w_visited (blockUnlessFollowingWithFriendships env src rel (Some (head # rest)) w) =
           w_visited w @ [a_id head]"
proof -
  from assms(4) have entry: "rel (a_sink_uid b) \<noteq> None"
    by (auto simp: tags_def split: option.splits)
  with assms(4) have rule: "spec_outcome src rel b = Some CANCELLED_DUPLICATE"
    by (auto simp: spec_outcome_def spec_rules_def)
  with entry decided_spec_outcome [of rel b src]
  have "decided src rel b = Some CANCELLED_DUPLICATE" by simp
  with rule assms(1,2) spec_outcome_None_decided [OF assms(1)] show ?thesis
    by (simp add: exec_Cons new_calls_def)
qed

text \<open>
  A clear action with a failing block-write, followed by an action on 13, which is
  both followed and blocked: the second stays PENDING; when the write succeeds it
  becomes CANCELLED_DUPLICATE.
\<close>

theorem precedence_skipped_after_failed_write_witness:
  "spec_outcome ex_src (indexBy_id_str ex_friendships) (ex_action 1 ''11'') = None \<and>
   e_block env_block_fails (logger DEBUG ''Creating block'' (visit (ex_action 1 ''11'') ex_world))
     ex_src (a_sink_uid (ex_action 1 ''11'')) = Inl ''503'' \<and>
   ex_action 3 ''13'' \<in> set [ex_action 3 ''13''] \<and>
   ''blocking'' \<in> tags (indexBy_id_str ex_friendships) (a_sink_uid (ex_action 3 ''13'')) \<and>
   ''following'' \<in> tags (indexBy_id_str ex_friendships) (a_sink_uid (ex_action 3 ''13'')) \<and>
   w_mem (blockUnlessFollowingWithFriendships env_block_fails ex_src
      (indexBy_id_str ex_friendships) (Some [ex_action 1 ''11'', ex_action 3 ''13''])
      ex_world) 3 = PENDING \<and>
   w_calls (blockUnlessFollowingWithFriendships env_block_fails ex_src
      (indexBy_id_str ex_friendships) (Some [ex_action 1 ''11'', ex_action 3 ''13''])
      ex_world) = [BlocksCreate ''1'' ''11''] \<and>
   w_mem (blockUnlessFollowingWithFriendships env_ok ex_src
      (indexBy_id_str ex_friendships) (Some [ex_action 1 ''11'', ex_action 3 ''13''])
      ex_world) 3 = CANCELLED_DUPLICATE"
proof -
  have h1: "spec_outcome ex_src (indexBy_id_str ex_friendships) (ex_action 1 ''11'') = None"
    by (simp add: spec_defs run_defs ex_defs)
  have h2: "e_block env_block_fails
      (logger DEBUG ''Creating block'' (visit (ex_action 1 ''11'') ex_world))
      ex_src (a_sink_uid (ex_action 1 ''11'')) = Inl ''503''"
    by (simp add: ex_defs)
  have h3: "ex_action 3 ''13'' \<in> set [ex_action 3 ''13'']" by simp
  have h4: "''blocking'' \<in> tags (indexBy_id_str ex_friendships) (a_sink_uid (ex_action 3 ''13''))"
    and h5: "''following'' \<in> tags (indexBy_id_str ex_friendships) (a_sink_uid (ex_action 3 ''13''))"
    by (simp_all add: spec_defs run_defs ex_defs)
  from h1 h2 h3 h4 h5 precedence_skipped_after_failed_write [OF h1 h2 h3 h4 h5]
  show ?thesis
    by (simp add: run_defs ex_defs)
qed

text \<open>
  C3. With more than 100 sink ids the validator only logs an error: it issues no call
  at all. With at most 100, and so with exactly 100, the calls it issues contain
  exactly one bulk relationship lookup, for all the ids given.
\<close>

theorem validator_batch_size:
  "(length sinkUids > 100 \<longrightarrow>
      blockUnlessFollowing env src sinkUids actions w =
        logger ERROR ''No more than 100 sinkUids allowed. Given'' w \<and>
      new_calls w (blockUnlessFollowing env src sinkUids actions w) = []) \<and>
   (length sinkUids \<le> 100 \<longrightarrow>
      filter is_lookup (new_calls w (blockUnlessFollowing env src sinkUids actions w)) =
        [FriendshipsLookup (bt_uid src) sinkUids])"
proof (intro conjI impI)
  assume "length sinkUids > 100"
  then show "blockUnlessFollowing env src sinkUids actions w =
      logger ERROR ''No more than 100 sinkUids allowed. Given'' w"
    by (simp add: blockUnlessFollowing_def)
  then show "new_calls w (blockUnlessFollowing env src sinkUids actions w) = []"
    by (simp add: new_calls_def)
next
  assume le: "length sinkUids \<le> 100"
  let ?w1 = "logger DEBUG ''Checking follow status'' w"
  let ?w2 = "issue (FriendshipsLookup (bt_uid src) sinkUids) ?w1"
  show "filter is_lookup (new_calls w (blockUnlessFollowing env src sinkUids actions w)) =
      [FriendshipsLookup (bt_uid src) sinkUids]"
  proof (cases "e_lookup env ?w1 src sinkUids")
    case (Inl err)
    with le show ?thesis by (simp add: blockUnlessFollowing_def Let_def new_calls_def)
  next
    case (Inr friendships)
    let ?w3 = "blockUnlessFollowingWithFriendships env src (indexBy_id_str friendships)
        (Some actions) ?w2"
    from exec_calls [of env src "indexBy_id_str friendships" actions ?w2]
    obtain ds where "w_calls ?w3 = w_calls ?w2 @ ds" by blast
    from new_calls_append [OF _ this, of w "[FriendshipsLookup (bt_uid src) sinkUids]"]
    have "new_calls w ?w3 = [FriendshipsLookup (bt_uid src) sinkUids] @ new_calls ?w2 ?w3"
      by simp
    moreover have "blockUnlessFollowing env src sinkUids actions w = ?w3"
      using le Inr by (simp add: blockUnlessFollowing_def Let_def)
    ultimately show ?thesis
      using exec_no_lookup [of ?w2 env src "indexBy_id_str friendships" actions] by simp
  qed
qed

theorem validator_batch_size_witness:
  "length (replicate 101 ''12'') > 100 \<and>
   w_calls (blockUnlessFollowing env_ok ex_src (replicate 101 ''12'') [] ex_world) = [] \<and>
   w_log (blockUnlessFollowing env_ok ex_src (replicate 101 ''12'') [] ex_world) =
     [(ERROR, ''No more than 100 sinkUids allowed. Given'')] \<and>
   length (replicate 100 ''12'') \<le> 100 \<and>
   w_calls (blockUnlessFollowing env_ok ex_src (replicate 100 ''12'') [] ex_world) =
     [FriendshipsLookup ''1'' (replicate 100 ''12'')]"
  using validator_batch_size [of "replicate 101 ''12''" env_ok ex_src "[]" ex_world]
    validator_batch_size [of "replicate 100 ''12''" env_ok ex_src "[]" ex_world]
  by (simp add: blockUnlessFollowing_def Let_def ex_defs)

text \<open>
  C4. An action whose sink has no entry in the relationship map is set to
  DEFERRED_TARGET_SUSPENDED by the rules, but not every such action of a batch is
  reached. When the block-write of an earlier action fails, an action behind it with
  no entry is never classified: its object and the rows are unchanged, no save is
  issued for it, and the action with the failed write is the only one visited.
\<close>

theorem no_entry_skipped_after_failed_write:
  assumes "spec_outcome src rel head = None"
    and "e_block env (logger DEBUG ''Creating block'' (visit head w)) src (a_sink_uid head) =
           Inl err"
    and "b \<in> set rest"
    and "rel (a_sink_uid b) = None"
  shows "spec_outcome src rel b = Some DEFERRED_TARGET_SUSPENDED \<and>
         w_mem (blockUnlessFollowingWithFriendships env src rel (Some (head # rest)) w) (a_id b) =
           w_mem w (a_id b) \<and>
         w_actions (blockUnlessFollowingWithFriendships env src rel (Some (head # rest)) w) =
           w_actions w \<and>
         (\<forall>s. ActionSave (a_id b) s \<notin>
            set (new_calls w
                  (blockUnlessFollowingWithFriendships env src rel (Some (head # rest)) w))) \<and>
         w_visited (blockUnlessFollowingWithFriendships env src rel (Some (head # rest)) w) =
           w_visited w @ [a_id head]"
proof -
  from assms(4) have "spec_outcome src rel b = Some DEFERRED_TARGET_SUSPENDED"
    by (simp add: spec_outcome_def spec_rules_def)
  with assms(1,2) spec_outcome_None_decided [OF assms(1)] show ?thesis
    by (simp add: exec_Cons new_calls_def)
qed

text \<open>
  A clear action with a failing block-write, followed by an action on 15, which the
  lookup did not return: the second stays PENDING; when the write succeeds it becomes
  DEFERRED_TARGET_SUSPENDED.
\<close>

theorem no_entry_skipped_after_failed_write_witness:
  "spec_outcome ex_src (indexBy_id_str ex_friendships) (ex_action 1 ''11'') = None \<and>
   e_block env_block_fails (logger DEBUG ''Creating block'' (visit (ex_action 1 ''11'') ex_world))
     ex_src (a_sink_uid (ex_action 1 ''11'')) = Inl ''503'' \<and>
   ex_action 3 ''15'' \<in> set [ex_action 3 ''15''] \<and>
   indexBy_id_str ex_friendships (a_sink_uid (ex_action 3 ''15'')) = None \<and>
   w_mem (blockUnlessFollowingWithFriendships env_block_fails ex_src
      (indexBy_id_str ex_friendships) (Some [ex_action 1 ''11'', ex_action 3 ''15''])
      ex_world) 3 = PENDING \<and>
   w_calls (blockUnlessFollowingWithFriendships env_block_fails ex_src
      (indexBy_id_str ex_friendships) (Some [ex_action 1 ''11'', ex_action 3 ''15''])
      ex_world) = [BlocksCreate ''1'' ''11''] \<and>
   w_mem (blockUnlessFollowingWithFriendships env_ok ex_src
      (indexBy_id_str ex_friendships) (Some [ex_action 1 ''11'', ex_action 3 ''15''])
      ex_world) 3 = DEFERRED_TARGET_SUSPENDED"
proof -
  have h1: "spec_outcome ex_src (indexBy_id_str ex_friendships) (ex_action 1 ''11'') = None"
    by (simp add: spec_defs run_defs ex_defs)
  have h2: "e_block env_block_fails
      (logger DEBUG ''Creating block'' (visit (ex_action 1 ''11'') ex_world))
      ex_src (a_sink_uid (ex_action 1 ''11'')) = Inl ''503''"
    by (simp add: ex_defs)
  have h3: "ex_action 3 ''15'' \<in> set [ex_action 3 ''15'']" by simp
  have h4: "indexBy_id_str ex_friendships (a_sink_uid (ex_action 3 ''15'')) = None"
    by (simp add: run_defs ex_defs)
  from h1 h2 h3 h4
    no_entry_skipped_after_failed_write [where rel = "indexBy_id_str ex_friendships"
      and src = ex_src and env = env_block_fails and w = ex_world
      and head = "ex_action 1 ''11''" and b = "ex_action 3 ''15''"
      and rest = "[ex_action 3 ''15'']", OF h1 h2 h3 h4]
  show ?thesis
    by (simp add: run_defs ex_defs)
qed

text \<open>
  C5. When the bulk lookup of a batch fails, the validator logs the error and stops:
  the lookup is the only call, no action is visited by the executor, and the objects
  in memory and the rows of the table are as before, so every action of the batch is
  still PENDING.
\<close>

theorem lookup_failure_skips_batch:
  assumes "length sinkUids \<le> 100"
    and "e_lookup env (logger DEBUG ''Checking follow status'' w) src sinkUids = Inl err"
  shows "blockUnlessFollowing env src sinkUids actions w =
           logger ERROR ''Error /friendships/lookup''
             (issue (FriendshipsLookup (bt_uid src) sinkUids)
               (logger DEBUG ''Checking follow status'' w)) \<and>
         w_log (blockUnlessFollowing env src sinkUids actions w) =
           w_log w @ [(DEBUG, ''Checking follow status''), (ERROR, ''Error /friendships/lookup'')] \<and>
         new_calls w (blockUnlessFollowing env src sinkUids actions w) =
           [FriendshipsLookup (bt_uid src) sinkUids] \<and>
         w_visited (blockUnlessFollowing env src sinkUids actions w) = w_visited w \<and>
         w_mem (blockUnlessFollowing env src sinkUids actions w) = w_mem w \<and>
         w_actions (blockUnlessFollowing env src sinkUids actions w) = w_actions w"
  using assms by (simp add: blockUnlessFollowing_def Let_def new_calls_def)

theorem lookup_failure_skips_batch_witness:
  "length [''11'', ''16''] \<le> 100 \<and>
   e_lookup env_lookup_fails (logger DEBUG ''Checking follow status'' ex_world) ex_src
     [''11'', ''16''] = Inl ''429'' \<and>
   w_calls (blockUnlessFollowing env_lookup_fails ex_src [''11'', ''16'']
             [ex_action 1 ''11'', ex_action 2 ''16''] ex_world) =
     [FriendshipsLookup ''1'' [''11'', ''16'']] \<and>
   w_visited (blockUnlessFollowing env_lookup_fails ex_src [''11'', ''16'']
             [ex_action 1 ''11'', ex_action 2 ''16''] ex_world) = [] \<and>
   map a_status (w_actions (blockUnlessFollowing env_lookup_fails ex_src [''11'', ''16'']
             [ex_action 1 ''11'', ex_action 2 ''16''] ex_world)) = [PENDING, PENDING]"
proof -
  have h1: "length [''11'', ''16''] \<le> 100" by simp
  have h2: "e_lookup env_lookup_fails (logger DEBUG ''Checking follow status'' ex_world) ex_src
     [''11'', ''16''] = Inl ''429''"
    by (simp add: ex_defs)
  from h1 h2 lookup_failure_skips_batch [OF h1 h2,
      where actions = "[ex_action 1 ''11'', ex_action 2 ''16'']"]
  show ?thesis by (simp add: blockUnlessFollowing_def Let_def ex_defs)
qed

text \<open>
  C6. The status writer sets the status of the action object, attempts to save it, and
  calls the continuation exactly once, after logging the error when the save fails:
  for every continuation \<open>next\<close>, the result is \<open>next\<close> applied once to the world
  reached when the save has been answered. In that world the object carries the new
  state, the only call issued is the save, and the log has grown by the error of a
  failed save and by nothing otherwise.
\<close>

theorem setActionStatus_next_once:
  "setActionStatus env action newState next w = next (after_save env action newState w) \<and>
   w_mem (after_save env action newState w) = (w_mem w)(a_id action := newState) \<and>
   new_calls w (after_save env action newState w) = [ActionSave (a_id action) newState] \<and>
   w_log (after_save env action newState w) =
     w_log w @
     (case e_fault env (w\<lparr>w_mem := (w_mem w)(a_id action := newState)\<rparr>)
             (ActionSave (a_id action) newState) of
        Some err \<Rightarrow> [(ERROR, err)]
      | None \<Rightarrow> [])"
  using setActionStatus_next [of env action newState "next" w]
    after_save_log [of env action newState w]
  by (simp add: new_calls_def)

text \<open>
  With a continuation that leaves one line in the log, the line appears once, after
  the error of a failed save.
\<close>

theorem setActionStatus_next_once_witness:
  "w_log (setActionStatus env_ok (ex_action 1 ''11'') DONE (logger INFO ''next'') ex_world) =
     [(INFO, ''next'')] \<and>
   w_log (setActionStatus env_save_fails (ex_action 1 ''11'') DONE (logger INFO ''next'')
            ex_world) =
     [(ERROR, ''deadlock''), (INFO, ''next'')]"
  using
    setActionStatus_next_once
      [of env_ok "ex_action 1 ''11''" DONE "logger INFO ''next''" ex_world]
    setActionStatus_next_once
      [of env_save_fails "ex_action 1 ''11''" DONE "logger INFO ''next''" ex_world]
  by (simp add: ex_defs)



text \<open>
  C8. For an account that is found, \<open>processActionsForUserId\<close> asks the store for the
  pending block actions ordered by ascending \<open>updatedAt\<close> with limit 100, and hands the
  answer to \<open>processActionsForUser\<close>. The answer has at most 100 rows, each a pending
  block action of that account, sorted by ascending \<open>updatedAt\<close>, and a pending block
  action of the account that was left out is no older than any row of a full batch of
  100. \<open>processBlocks\<close> enumerates the accounts from a query grouped by \<open>source_uid\<close>
  with limit 300: at most 300 pending block actions with distinct source uids.
\<close>

theorem batch_selection:
  fixes env :: env and w :: world and uid :: uid and btUser :: bt_user
  defines "opts100 \<equiv> \<lparr>o_where = StatusPendingAndTypeBlock, o_group_source_uid = False,
      o_order_updatedAt_ASC = True, o_limit = 100\<rparr>"
    and "opts300 \<equiv> \<lparr>o_where = StatusPendingAndTypeBlock, o_group_source_uid = True,
      o_order_updatedAt_ASC = False, o_limit = 300\<rparr>"
  defines "batch \<equiv> Action_findAll opts100 (filter (\<lambda>a. a_source_uid a = uid) (w_actions w))"
    and "reps \<equiv> Action_findAll opts300 (w_actions w)"
  shows "(e_fault env w (BtUserFind uid) = None \<and>
          find (\<lambda>u. bt_uid u = uid) (w_users w) = Some btUser \<and>
          e_fault env (issue (BtUserFind uid) w) (GetActions uid opts100) = None \<longrightarrow>
            (\<exists>w'. processActionsForUserId env uid w = processActionsForUser env btUser batch w' \<and>
                  new_calls w w' = [BtUserFind uid, GetActions uid opts100])) \<and>
         length batch \<le> 100 \<and>
         (\<forall>a\<in>set batch. a \<in> set (w_actions w) \<and> a_source_uid a = uid \<and>
            a_status a = PENDING \<and> a_type a = ''block'') \<and>
         sorted (map a_updatedAt batch) \<and>
         (\<forall>b\<in>set (w_actions w).
            a_source_uid b = uid \<and> a_status b = PENDING \<and> a_type b = ''block'' \<and>
            b \<notin> set batch \<longrightarrow>
              length batch = 100 \<and> (\<forall>a\<in>set batch. a_updatedAt a \<le> a_updatedAt b)) \<and>
         (e_fault env w (ActionFindAll opts300) = None \<longrightarrow>
            processBlocks env w =
              foldl (\<lambda>w' action. processActionsForUserId env (a_source_uid action) w')
                (issue (ActionFindAll opts300) w) reps) \<and>
         length reps \<le> 300 \<and>
         distinct (map a_source_uid reps) \<and>
         (\<forall>a\<in>set reps. a \<in> set (w_actions w) \<and> a_status a = PENDING \<and> a_type a = ''block'')"
proof -
  let ?mine = "filter (\<lambda>a. a_source_uid a = uid) (w_actions w)"
  have sel: "e_fault env w (BtUserFind uid) = None \<and>
          find (\<lambda>u. bt_uid u = uid) (w_users w) = Some btUser \<and>
          e_fault env (issue (BtUserFind uid) w) (GetActions uid opts100) = None \<longrightarrow>
            (\<exists>w'. processActionsForUserId env uid w = processActionsForUser env btUser batch w' \<and>
                  new_calls w w' = [BtUserFind uid, GetActions uid opts100])"
  proof
    assume h: "e_fault env w (BtUserFind uid) = None \<and>
          find (\<lambda>u. bt_uid u = uid) (w_users w) = Some btUser \<and>
          e_fault env (issue (BtUserFind uid) w) (GetActions uid opts100) = None"
    then have uid: "bt_uid btUser = uid" by (auto simp: find_Some_iff)
    let ?w2 = "issue (GetActions uid opts100) (issue (BtUserFind uid) w)"
    let ?w' = "?w2\<lparr>w_mem := foldl (\<lambda>m a. m(a_id a := a_status a)) (w_mem ?w2) batch\<rparr>"
    from h uid have "processActionsForUserId env uid w = processActionsForUser env btUser batch ?w'"
      by (simp add: processActionsForUserId_def Let_def getActions_def batch_def opts100_def)
    moreover have "new_calls w ?w' = [BtUserFind uid, GetActions uid opts100]"
      by (simp add: new_calls_def)
    ultimately show "\<exists>w'. processActionsForUserId env uid w =
        processActionsForUser env btUser batch w' \<and>
        new_calls w w' = [BtUserFind uid, GetActions uid opts100]"
      by blast
  qed
  have len: "length batch \<le> 100"
    using findAll_length [of opts100 ?mine] by (simp add: batch_def opts100_def)
  have mem: "\<forall>a\<in>set batch. a \<in> set (w_actions w) \<and> a_source_uid a = uid \<and>
            a_status a = PENDING \<and> a_type a = ''block''"
  proof
    fix a
    assume "a \<in> set batch"
    with findAll_subset [of a opts100 ?mine]
    have "a \<in> set ?mine" and "holds (o_where opts100) a"
      by (simp_all add: batch_def)
    then show "a \<in> set (w_actions w) \<and> a_source_uid a = uid \<and>
        a_status a = PENDING \<and> a_type a = ''block''"
      by (simp add: opts100_def)
  qed
  have srt: "sorted (map a_updatedAt batch)"
    using findAll_sorted [of opts100 ?mine] by (simp add: batch_def opts100_def)
  have old: "\<forall>b\<in>set (w_actions w).
            a_source_uid b = uid \<and> a_status b = PENDING \<and> a_type b = ''block'' \<and>
            b \<notin> set batch \<longrightarrow>
              length batch = 100 \<and> (\<forall>a\<in>set batch. a_updatedAt a \<le> a_updatedAt b)"
  proof (intro ballI impI)
    fix b
    assume b: "b \<in> set (w_actions w)"
      and hb: "a_source_uid b = uid \<and> a_status b = PENDING \<and> a_type b = ''block'' \<and>
            b \<notin> set batch"
    have everyone: "a_updatedAt a \<le> a_updatedAt b \<and> length batch = 100"
      if "a \<in> set batch" for a
      using findAll_oldest [of opts100 a ?mine b] that b hb
      by (simp add: batch_def opts100_def)
    have "batch \<noteq> []"
    proof
      assume "batch = []"
      then have "take 100 (sort_key a_updatedAt (filter (holds StatusPendingAndTypeBlock) ?mine)) = []"
        by (simp add: batch_def opts100_def Action_findAll_def Let_def)
      then have "filter (holds StatusPendingAndTypeBlock) ?mine = []"
        using length_sort [of a_updatedAt "filter (holds StatusPendingAndTypeBlock) ?mine"]
        by (simp only: take_eq_Nil) auto
      with b hb show False by (auto simp: filter_empty_conv)
    qed
    then obtain a where "a \<in> set batch" by (cases batch) auto
    with everyone show "length batch = 100 \<and> (\<forall>a\<in>set batch. a_updatedAt a \<le> a_updatedAt b)"
      by blast
  qed
  have pb: "e_fault env w (ActionFindAll opts300) = None \<longrightarrow>
            processBlocks env w =
              foldl (\<lambda>w' action. processActionsForUserId env (a_source_uid action) w')
                (issue (ActionFindAll opts300) w) reps"
    by (simp add: processBlocks_def Let_def reps_def opts300_def)
  have rlen: "length reps \<le> 300"
    using findAll_length [of opts300 "w_actions w"] by (simp add: reps_def opts300_def)
  have rdis: "distinct (map a_source_uid reps)"
    using findAll_distinct [of opts300 "w_actions w"] by (simp add: reps_def opts300_def)
  have rmem: "\<forall>a\<in>set reps. a \<in> set (w_actions w) \<and> a_status a = PENDING \<and> a_type a = ''block''"
  proof
    fix a
    assume "a \<in> set reps"
    with findAll_subset [of a opts300 "w_actions w"]
    have "a \<in> set (w_actions w)" and "holds (o_where opts300) a"
      by (simp_all add: reps_def)
    then show "a \<in> set (w_actions w) \<and> a_status a = PENDING \<and> a_type a = ''block''"
      by (simp add: opts300_def)
  qed
  show ?thesis
    by (intro conjI) (fact sel len mem srt old pb rlen rdis rmem)+
qed


theorem batch_selection_witness:
  "e_fault env_lookup_fails ex_store (BtUserFind ''1'') = None \<and>
   e_fault env_lookup_fails (issue (BtUserFind ''1'') ex_store)
     (GetActions ''1'' \<lparr>o_where = StatusPendingAndTypeBlock, o_group_source_uid = False,
        o_order_updatedAt_ASC = True, o_limit = 100\<rparr>) = None \<and>
   e_fault env_lookup_fails ex_store
     (ActionFindAll \<lparr>o_where = StatusPendingAndTypeBlock, o_group_source_uid = True,
        o_order_updatedAt_ASC = False, o_limit = 300\<rparr>) = None \<and>
   find (\<lambda>u. bt_uid u = ''1'') (w_users ex_store) = Some ex_src \<and>
   w_calls (processActionsForUserId env_lookup_fails ''1'' ex_store) =
     [BtUserFind ''1'',
      GetActions ''1'' \<lparr>o_where = StatusPendingAndTypeBlock, o_group_source_uid = False,
        o_order_updatedAt_ASC = True, o_limit = 100\<rparr>,
      FriendshipsLookup ''1'' [''16'', ''11'']] \<and>
   map a_id (Action_findAll \<lparr>o_where = StatusPendingAndTypeBlock, o_group_source_uid = True,
        o_order_updatedAt_ASC = False, o_limit = 300\<rparr> (w_actions ex_store)) = [1, 4]"
  using batch_selection [of env_lookup_fails ex_store "''1''" ex_src]
  by (simp add: processActionsForUserId_def processActionsForUser_def blockUnlessFollowing_def
      getActions_def Action_findAll_def Let_def ex_store_def ex_defs)

text \<open>
  C9. The sequential executor is a total function. It returns the world unchanged on
  \<open>null\<close> and on the empty list, and on a batch of \<open>n\<close> actions the actions it
  classifies are the first \<open>k\<close> of the batch, in order, for some \<open>k \<le> n\<close>: at most
  \<open>n\<close> classification steps, no position of the batch twice.
\<close>

theorem executor_terminates:
  "blockUnlessFollowingWithFriendships env src rel None w = w \<and>
   blockUnlessFollowingWithFriendships env src rel (Some []) w = w \<and>
   (\<exists>k\<le>length actions.
      w_visited (blockUnlessFollowingWithFriendships env src rel (Some actions) w) =
        w_visited w @ map a_id (take k actions))"
  using exec_visited [of actions env src rel w] by simp

theorem executor_terminates_witness:
  "w_visited
     (blockUnlessFollowingWithFriendships env_ok ex_src (indexBy_id_str ex_friendships)
        (Some [ex_action 1 ''11'', ex_action 2 ''12'', ex_action 3 ''15'']) ex_world) =
   [1, 2, 3]"
  using executor_terminates [of env_ok ex_src "indexBy_id_str ex_friendships" ex_world
      "[ex_action 1 ''11'', ex_action 2 ''12'', ex_action 3 ''15'']"]
  by (simp add: run_defs ex_defs)

text \<open>
  C10. On an empty list of selected actions \<open>processActionsForUser\<close> does nothing: the
  world is unchanged, so no call of any kind is issued. The relationship validator is
  entered only when the batch has at least one action.
\<close>

theorem processActionsForUser_empty:
  "processActionsForUser env btUser [] w = w \<and>
   new_calls w (processActionsForUser env btUser [] w) = [] \<and>
   processActionsForUser env btUser actions w =
     (if actions = [] then w
      else blockUnlessFollowing env btUser (map a_sink_uid actions) actions w)"
  by (simp add: processActionsForUser_def new_calls_def)

theorem processActionsForUser_empty_witness:
  "processActionsForUser env_ok ex_src [] ex_world = ex_world \<and>
   w_calls (processActionsForUser env_ok ex_src [] ex_world) = []"
  using processActionsForUser_empty [of env_ok ex_src ex_world]
  by (simp add: ex_world_def)

end
